theory Spec2Isabelle
  imports Main
begin

section \<open>The conflict pattern\<close>

text \<open>
  \<^verbatim>\<open>conflict_re = re.compile(r"# Edit conflict \d{4}-\d{2}-\d{2} .* #")\<close>

  The pattern is a sequence of items over single-character classes: a literal character,
  \<^verbatim>\<open>\d\<close> and \<^verbatim>\<open>.\<close>; an item is one occurrence of a class, a counted repetition
  \<^verbatim>\<open>{n}\<close> or a star. File names are modelled as \<^typ>\<open>string\<close>, that is, over 8-bit
  characters; in that range the class \<^verbatim>\<open>\d\<close> of Python's \<^verbatim>\<open>re\<close> is exactly
  \<^verbatim>\<open>0\<close> to \<^verbatim>\<open>9\<close>, and \<^verbatim>\<open>.\<close> (no DOTALL flag) is every character but the
  line feed.
\<close>

datatype atom = Lit char | Digit | Dot

datatype item = One atom | Rep atom nat | Star atom

definition is_digit :: "char \<Rightarrow> bool" where
  "is_digit c = (c \<in> set ''0123456789'')"

fun atom_ok :: "atom \<Rightarrow> char \<Rightarrow> bool" where
  "atom_ok (Lit a) c = (c = a)"
| "atom_ok Digit c = is_digit c"
| "atom_ok Dot c = (c \<noteq> CHR 0x0A)"

text \<open>
  \<open>match_here p s\<close>: some prefix of \<open>s\<close> matches the whole pattern \<open>p\<close>. The star tries
  every number of repetitions, which is what the backtracking of \<^verbatim>\<open>re\<close> amounts to when
  only the existence of a match is asked.
\<close>

fun match_here :: "item list \<Rightarrow> string \<Rightarrow> bool" where
  "match_here [] s = True"
| "match_here (One a # r) [] = False"
| "match_here (One a # r) (c # s) = (atom_ok a c \<and> match_here r s)"
| "match_here (Rep a 0 # r) s = match_here r s"
| "match_here (Rep a (Suc n) # r) [] = False"
| "match_here (Rep a (Suc n) # r) (c # s) = (atom_ok a c \<and> match_here (Rep a n # r) s)"
| "match_here (Star a # r) [] = match_here r []"
| "match_here (Star a # r) (c # s) =
     ((atom_ok a c \<and> match_here (Star a # r) s) \<or> match_here r (c # s))"

text \<open>\<^verbatim>\<open>pattern.search(s)\<close> as a truth value: a match starting at some position of \<open>s\<close>.\<close>

fun search :: "item list \<Rightarrow> string \<Rightarrow> bool" where
  "search p [] = match_here p []"
| "search p (c # s) = (match_here p (c # s) \<or> search p s)"

definition lits :: "string \<Rightarrow> item list" where
  "lits w = map (\<lambda>c. One (Lit c)) w"

definition conflict_re :: "item list" where
  "conflict_re =
     lits ''# Edit conflict '' @
     [Rep Digit 4, One (Lit CHR ''-''), Rep Digit 2, One (Lit CHR ''-''), Rep Digit 2,
      One (Lit CHR '' ''), Star Dot, One (Lit CHR '' ''), One (Lit CHR ''#'')]"

section \<open>The file system\<close>

text \<open>
  A path is the list of its components, as \<^verbatim>\<open>pathlib.Path\<close> keeps it, resolved from the
  root of the modelled tree (the working directory of the process); \<^verbatim>\<open>Path(root) / file\<close>
  appends one component. Paths that leave the tree, through \<^verbatim>\<open>..\<close> or a leading slash,
  are not modelled: they resolve to nothing here. A directory holds its entries in the
  order in which \<^verbatim>\<open>os.scandir\<close> lists them. The nodes:
  \<^item> \<open>File\<close>, a regular file, and \<open>Dir\<close>, a directory, each with its \<^verbatim>\<open>st_size\<close>;
  \<^item> \<open>Locked\<close>, a directory without read permission: its entries are reached by name,
    but listing it is refused;
  \<^item> \<open>DirLink\<close>, a symbolic link to a directory, with the size and the entries of the
    directory it points to;
  \<^item> \<open>Special\<close>, any other entry with a size that is neither a directory nor a regular
    file (a FIFO, a socket, a device, a symbolic link to a file);
  \<^item> \<open>Dangling\<close>, a symbolic link whose target is missing.
\<close>

type_synonym path = "string list"

datatype node =
    File nat
  | Dir nat "(string \<times> node) list"
  | Locked nat "(string \<times> node) list"
  | DirLink nat "(string \<times> node) list"
  | Special nat
  | Dangling

datatype os_error =
  FileNotFoundError | NotADirectoryError | IsADirectoryError | PermissionError

fun lookup :: "node \<Rightarrow> path \<Rightarrow> os_error + node"
  and lookup_in :: "(string \<times> node) list \<Rightarrow> string \<Rightarrow> path \<Rightarrow> os_error + node" where
  "lookup n [] = Inr n"
| "lookup (File sz) (c # cs) = Inl NotADirectoryError"
| "lookup (Dir sz es) (c # cs) = lookup_in es c cs"
| "lookup (Locked sz es) (c # cs) = lookup_in es c cs"
| "lookup (DirLink sz es) (c # cs) = lookup_in es c cs"
| "lookup (Special sz) (c # cs) = Inl NotADirectoryError"
| "lookup Dangling (c # cs) = Inl FileNotFoundError"
| "lookup_in [] c cs = Inl FileNotFoundError"
| "lookup_in ((name, n) # es) c cs = (if name = c then lookup n cs else lookup_in es c cs)"


definition exists :: "node \<Rightarrow> path \<Rightarrow> bool" where
  "exists fs p = (case lookup fs p of Inl e \<Rightarrow> False | Inr Dangling \<Rightarrow> False | Inr n \<Rightarrow> True)"

fun is_directory :: "node \<Rightarrow> bool" where
  "is_directory (Dir sz es) = True"
| "is_directory (Locked sz es) = True"
| "is_directory (DirLink sz es) = True"
| "is_directory n = False"

definition is_dir :: "node \<Rightarrow> path \<Rightarrow> bool" where
  "is_dir fs p = (case lookup fs p of Inl e \<Rightarrow> False | Inr n \<Rightarrow> is_directory n)"

text \<open>
  \<^verbatim>\<open>os.remove(path)\<close>: the entry is taken out of its directory; a missing entry, a
  directory, and a path that runs through a file are the errors. A symbolic link is removed
  itself, whatever it points to. The root of the tree has no parent directory in the model,
  so it is never removed.
\<close>

fun remove_node :: "node \<Rightarrow> path \<Rightarrow> os_error + node"
  and remove_in :: "(string \<times> node) list \<Rightarrow> string \<Rightarrow> path \<Rightarrow> os_error + (string \<times> node) list"
  where
  "remove_node (Dir sz es) [] = Inl IsADirectoryError"
| "remove_node (Locked sz es) [] = Inl IsADirectoryError"
| "remove_node (File sz) [] = Inl PermissionError"
| "remove_node (DirLink sz es) [] = Inl PermissionError"
| "remove_node (Special sz) [] = Inl PermissionError"
| "remove_node Dangling [] = Inl PermissionError"
| "remove_node (File sz) (c # cs) = Inl NotADirectoryError"
| "remove_node (Special sz) (c # cs) = Inl NotADirectoryError"
| "remove_node Dangling (c # cs) = Inl FileNotFoundError"
| "remove_node (Dir sz es) (c # cs) =
     (case remove_in es c cs of Inl e \<Rightarrow> Inl e | Inr es' \<Rightarrow> Inr (Dir sz es'))"
| "remove_node (Locked sz es) (c # cs) =
     (case remove_in es c cs of Inl e \<Rightarrow> Inl e | Inr es' \<Rightarrow> Inr (Locked sz es'))"
| "remove_node (DirLink sz es) (c # cs) =
     (case remove_in es c cs of Inl e \<Rightarrow> Inl e | Inr es' \<Rightarrow> Inr (DirLink sz es'))"
| "remove_in [] c cs = Inl FileNotFoundError"
| "remove_in ((name, n) # es) c cs =
     (if name = c then
        (case cs of
           [] \<Rightarrow>
             (case n of
                Dir sz es' \<Rightarrow> Inl IsADirectoryError
              | Locked sz es' \<Rightarrow> Inl IsADirectoryError
              | _ \<Rightarrow> Inr es)
         | _ # _ \<Rightarrow> (case remove_node n cs of Inl e \<Rightarrow> Inl e | Inr n' \<Rightarrow> Inr ((name, n') # es)))
      else
        (case remove_in es c cs of Inl e \<Rightarrow> Inl e | Inr es' \<Rightarrow> Inr ((name, n) # es')))"

definition os_remove :: "node \<Rightarrow> path \<Rightarrow> os_error + node" where
  "os_remove fs p = remove_node fs p"

text \<open>
  \<^verbatim>\<open>os.walk(top)\<close>, top-down, with \<^verbatim>\<open>followlinks\<close> and \<^verbatim>\<open>onerror\<close> left at their
  defaults: one triple \<^verbatim>\<open>(root, dirs, files)\<close> for the directory itself, \<open>dirs\<close> the
  entries for which \<^verbatim>\<open>is_dir()\<close> holds and \<open>files\<close> all the others, then the walk of each
  subdirectory in listing order. A symbolic link to a directory is named in \<open>dirs\<close> and not
  entered, unless it is the top itself; a directory that cannot be listed yields nothing,
  and the error is dropped.
\<close>

type_synonym walk_item = "path \<times> string list \<times> string list"

fun dirnames :: "(string \<times> node) list \<Rightarrow> string list" where
  "dirnames [] = []"
| "dirnames ((name, n) # es) = (if is_directory n then name # dirnames es else dirnames es)"

fun filenames :: "(string \<times> node) list \<Rightarrow> string list" where
  "filenames [] = []"
| "filenames ((name, n) # es) = (if is_directory n then filenames es else name # filenames es)"

fun walk_node :: "path \<Rightarrow> node \<Rightarrow> walk_item list"
  and walk_entries :: "path \<Rightarrow> (string \<times> node) list \<Rightarrow> walk_item list" where
  "walk_node root (Dir sz es) = (root, dirnames es, filenames es) # walk_entries root es"
| "walk_node root (DirLink sz es) = (root, dirnames es, filenames es) # walk_entries root es"
| "walk_node root (Locked sz es) = []"
| "walk_node root (File sz) = []"
| "walk_node root (Special sz) = []"
| "walk_node root Dangling = []"
| "walk_entries root [] = []"
| "walk_entries root ((name, Dir sz es') # es) =
     walk_node (root @ [name]) (Dir sz es') @ walk_entries root es"
| "walk_entries root ((name, Locked sz es') # es) =
     walk_node (root @ [name]) (Locked sz es') @ walk_entries root es"
| "walk_entries root ((name, DirLink sz es') # es) = walk_entries root es"
| "walk_entries root ((name, File sz) # es) = walk_entries root es"
| "walk_entries root ((name, Special sz) # es) = walk_entries root es"
| "walk_entries root ((name, Dangling) # es) = walk_entries root es"

definition os_walk :: "node \<Rightarrow> path \<Rightarrow> walk_item list" where
  "os_walk fs top_dir =
     (case lookup fs top_dir of Inl e \<Rightarrow> [] | Inr n \<Rightarrow> walk_node top_dir n)"

text \<open>A directory lists each name once.\<close>

fun wf_node :: "node \<Rightarrow> bool"
  and wf_entries :: "(string \<times> node) list \<Rightarrow> bool" where
  "wf_node (File sz) = True"
| "wf_node (Dir sz es) = wf_entries es"
| "wf_node (Locked sz es) = wf_entries es"
| "wf_node (DirLink sz es) = wf_entries es"
| "wf_node (Special sz) = True"
| "wf_node Dangling = True"
| "wf_entries [] = True"
| "wf_entries ((name, n) # es) = (name \<notin> fst ` set es \<and> wf_node n \<and> wf_entries es)"

section \<open>Console output\<close>

text \<open>
  One constructor for each message the program writes, in the order written; the progress
  bar of \<^verbatim>\<open>tqdm\<close> is one line for each directory the walk yields, with the count of
  directories so far. \<open>ErrorRemovingFileMarkup\<close> is the line of the handler of
  \<^verbatim>\<open>remove_files\<close> when the exception it caught is not an \<^verbatim>\<open>OSError\<close> of
  \<^verbatim>\<open>os.remove\<close> but the \<^verbatim>\<open>MarkupError\<close> of the print before it.
\<close>

datatype line =
    Searching path nat
  | FoundConflictFile path
  | SkippingFile path
  | RemovedFile path
  | ErrorRemovingFile path os_error
  | DirectoryDoesNotExist path
  | FoundCount nat
  | Listing "path list"
  | Prompt nat string
  | AbortingFileRemoval
  | ErrorRemovingFileMarkup path

text \<open>
  \<^verbatim>\<open>print\<close> is \<^verbatim>\<open>rich.print\<close>: it reads its text as console markup and raises
  \<^verbatim>\<open>MarkupError\<close> on a closing tag that closes nothing, which the text of a path can
  hold (\<^verbatim>\<open>a[/b].txt\<close>). The markup parser is the library's; its verdict on a line is
  the parameter \<open>rejects\<close> of the functions below that print. The progress bar is
  written by \<^verbatim>\<open>tqdm\<close> and the prompt by \<^verbatim>\<open>input\<close>: they are not parsed.
\<close>

datatype py_exception = OSError os_error | EOFError | MarkupError

section \<open>\<^verbatim>\<open>find_files\<close>\<close>

text \<open>
  The inner loop \<^verbatim>\<open>for file in files\<close> on a console that accepts every line; the state
  is the conflict list and the output.
\<close>

fun scan_files :: "bool \<Rightarrow> path \<Rightarrow> string list \<Rightarrow> path list \<times> line list \<Rightarrow> path list \<times> line list"
  where
  "scan_files verbose root [] st = st"
| "scan_files verbose root (file # files) (conflict_list, out) =
     (let full_path = root @ [file] in
      if search conflict_re file then
        scan_files verbose root files
          (conflict_list @ [full_path],
           if verbose then out @ [FoundConflictFile full_path] else out)
      else if verbose then
        scan_files verbose root files (conflict_list, out @ [SkippingFile full_path])
      else scan_files verbose root files (conflict_list, out))"

text \<open>The outer loop \<^verbatim>\<open>for root, dirs, files in tqdm(os.walk(dir), ...)\<close>.\<close>

fun scan_walk :: "bool \<Rightarrow> path \<Rightarrow> nat \<Rightarrow> walk_item list \<Rightarrow> path list \<times> line list \<Rightarrow> path list \<times> line list"
  where
  "scan_walk verbose dir k [] st = st"
| "scan_walk verbose dir k ((root, dirs, files) # rest) (conflict_list, out) =
     scan_walk verbose dir (Suc k) rest
       (scan_files verbose root files (conflict_list, out @ [Searching dir (Suc k)]))"

definition find_files :: "node \<Rightarrow> path \<Rightarrow> bool \<Rightarrow> path list \<times> line list" where
  "find_files fs dir verbose = scan_walk verbose dir 0 (os_walk fs dir) ([], [])"

text \<open>
  The same loops with the verdict of the console on each line: a rejected line raises
  \<^verbatim>\<open>MarkupError\<close>, which nothing in \<^verbatim>\<open>find_files\<close> catches.
\<close>

fun scan_files_rich ::
  "(line \<Rightarrow> bool) \<Rightarrow> bool \<Rightarrow> path \<Rightarrow> string list \<Rightarrow> path list \<times> line list \<Rightarrow>
   py_exception + path list \<times> line list"
  where
  "scan_files_rich rejects verbose root [] st = Inr st"
| "scan_files_rich rejects verbose root (file # files) (conflict_list, out) =
     (let full_path = root @ [file] in
      if search conflict_re file then
        (if verbose then
           (if rejects (FoundConflictFile full_path) then Inl MarkupError
            else scan_files_rich rejects verbose root files
                   (conflict_list @ [full_path], out @ [FoundConflictFile full_path]))
         else scan_files_rich rejects verbose root files (conflict_list @ [full_path], out))
      else if verbose then
        (if rejects (SkippingFile full_path) then Inl MarkupError
         else scan_files_rich rejects verbose root files
                (conflict_list, out @ [SkippingFile full_path]))
      else scan_files_rich rejects verbose root files (conflict_list, out))"

fun scan_walk_rich ::
  "(line \<Rightarrow> bool) \<Rightarrow> bool \<Rightarrow> path \<Rightarrow> nat \<Rightarrow> walk_item list \<Rightarrow> path list \<times> line list \<Rightarrow>
   py_exception + path list \<times> line list"
  where
  "scan_walk_rich rejects verbose dir k [] st = Inr st"
| "scan_walk_rich rejects verbose dir k ((root, dirs, files) # rest) (conflict_list, out) =
     (case scan_files_rich rejects verbose root files
             (conflict_list, out @ [Searching dir (Suc k)]) of
        Inl e \<Rightarrow> Inl e
      | Inr st \<Rightarrow> scan_walk_rich rejects verbose dir (Suc k) rest st)"

definition find_files_rich ::
  "(line \<Rightarrow> bool) \<Rightarrow> node \<Rightarrow> path \<Rightarrow> bool \<Rightarrow> py_exception + path list \<times> line list" where
  "find_files_rich rejects fs dir verbose =
     scan_walk_rich rejects verbose dir 0 (os_walk fs dir) ([], [])"

section \<open>\<^verbatim>\<open>remove_files\<close>\<close>

text \<open>
  The loop with its \<^verbatim>\<open>try\<close>/\<^verbatim>\<open>except Exception\<close> on a console that accepts every
  line: either branch writes one line and goes on with the next file.
\<close>

fun remove_files :: "path list \<Rightarrow> node \<times> line list \<Rightarrow> node \<times> line list" where
  "remove_files [] st = st"
| "remove_files (file # files) (fs, out) =
     (case os_remove fs file of
        Inr fs' \<Rightarrow> remove_files files (fs', out @ [RemovedFile file])
      | Inl e \<Rightarrow> remove_files files (fs, out @ [ErrorRemovingFile file e]))"

text \<open>
  The same loop with the verdict of the console on each line. The print of the removal is
  inside the \<^verbatim>\<open>try\<close>: its \<^verbatim>\<open>MarkupError\<close> is caught like an error of
  \<^verbatim>\<open>os.remove\<close>, after the file is gone. The print of the handler is guarded by nothing:
  its \<^verbatim>\<open>MarkupError\<close> leaves the loop and the function. The result is the exception
  that escaped, if any, with the file system and the output at that point.
\<close>

fun remove_files_rich ::
  "(line \<Rightarrow> bool) \<Rightarrow> path list \<Rightarrow> node \<times> line list \<Rightarrow>
   py_exception option \<times> node \<times> line list"
  where
  "remove_files_rich rejects [] (fs, out) = (None, fs, out)"
| "remove_files_rich rejects (file # files) (fs, out) =
     (case os_remove fs file of
        Inr fs' \<Rightarrow>
          (if rejects (RemovedFile file) then
             (if rejects (ErrorRemovingFileMarkup file) then (Some MarkupError, fs', out)
              else remove_files_rich rejects files (fs', out @ [ErrorRemovingFileMarkup file]))
           else remove_files_rich rejects files (fs', out @ [RemovedFile file]))
      | Inl e \<Rightarrow>
          (if rejects (ErrorRemovingFile file e) then (Some MarkupError, fs, out)
           else remove_files_rich rejects files (fs, out @ [ErrorRemovingFile file e])))"

section \<open>The size summary\<close>











section \<open>The entry point\<close>








section \<open>Vocabulary of the properties\<close>



text \<open>The entry at a path is a regular file.\<close>

definition is_file :: "node \<Rightarrow> path \<Rightarrow> bool" where
  "is_file fs p = (case lookup fs p of Inr (File sz) \<Rightarrow> True | _ \<Rightarrow> False)"

text \<open>
  The entry found at a relative path below a list of entries when only directories that
  can be listed, and no symbolic link, are entered on the way; and the same from the
  scanned directory, which may itself be reached through a link.
\<close>

fun listed_below :: "(string \<times> node) list \<Rightarrow> path \<Rightarrow> node option" where
  "listed_below [] p = None"
| "listed_below es [] = None"
| "listed_below ((name, n) # es) [c] = (if name = c then Some n else listed_below es [c])"
| "listed_below ((name, Dir sz es') # es) (c # cs) =
     (if name = c then listed_below es' cs else listed_below es (c # cs))"
| "listed_below ((name, n) # es) (c # cs) =
     (if name = c then None else listed_below es (c # cs))"

definition listed_entry :: "node \<Rightarrow> path \<Rightarrow> node option" where
  "listed_entry n rel =
     (case n of
        Dir sz es \<Rightarrow> listed_below es rel
      | DirLink sz es \<Rightarrow> listed_below es rel
      | _ \<Rightarrow> None)"

text \<open>The walk of the directory \<open>n\<close> lists \<open>rel\<close> among the files of some directory.\<close>

definition lists_below :: "(string \<times> node) list \<Rightarrow> path \<Rightarrow> bool" where
  "lists_below es rel =
     (case listed_below es rel of None \<Rightarrow> False | Some e \<Rightarrow> \<not> is_directory e)"

definition walk_lists :: "node \<Rightarrow> path \<Rightarrow> bool" where
  "walk_lists n rel =
     (case listed_entry n rel of None \<Rightarrow> False | Some e \<Rightarrow> \<not> is_directory e)"

text \<open>The full paths of the files that a walk yields, in order.\<close>

definition listed_files :: "walk_item list \<Rightarrow> path list" where
  "listed_files items = concat (map (\<lambda>(root, dirs, files). map (\<lambda>f. root @ [f]) files) items)"

definition conflict_path :: "path \<Rightarrow> bool" where
  "conflict_path p = (p \<noteq> [] \<and> search conflict_re (last p))"

text \<open>A small tree for the examples: two conflict files at depths one and two, one at depth three.\<close>

definition report_v2 :: string where
  "report_v2 = ''report # Edit conflict 2024-01-15 v2 #.docx''"

definition example_tree :: node where
  "example_tree =
     Dir 4096
       [(''report_final.docx'', File 2048),
        (report_v2, File 512000),
        (''sub'', Dir 4096
           [(''notes # Edit conflict 2023-11-02 laptop #.md'', File 614400),
            (''deep'', Dir 4096 [(report_v2, File 10)])])]"

text \<open>The paths whose removal the console reports, done or failed, in order.\<close>

fun removal_of :: "line \<Rightarrow> path list" where
  "removal_of (RemovedFile p) = [p]"
| "removal_of (ErrorRemovingFile p e) = [p]"
| "removal_of l = []"

definition removal_attempts :: "line list \<Rightarrow> path list" where
  "removal_attempts out = concat (map removal_of out)"




text \<open>
  A tree with what the walk does not show and what it shows besides regular files: a
  directory that cannot be listed, with a conflict file in it, and a dangling link with a
  conflict name.
\<close>

definition locked_tree :: node where
  "locked_tree =
     Dir 4096
       [(''locked'', Locked 4096 [(report_v2, File 10)]),
        (''gone # Edit conflict 2024-01-15 x #'', Dangling)]"

text \<open>
  The paths whose text a line hands to \<^verbatim>\<open>rich.print\<close>, and the verdict of the console on
  the lines that show the path \<^verbatim>\<open>a[/b].txt\<close>, whose \<^verbatim>\<open>[/b]\<close> closes nothing: they are
  rejected. \<open>bracket_tree\<close> holds that file and a conflict file, \<open>bracket_tree_after\<close> is the
  same tree once the file is removed.
\<close>

fun rich_paths :: "line \<Rightarrow> path list" where
  "rich_paths (FoundConflictFile p) = [p]"
| "rich_paths (SkippingFile p) = [p]"
| "rich_paths (RemovedFile p) = [p]"
| "rich_paths (ErrorRemovingFile p e) = [p]"
| "rich_paths (ErrorRemovingFileMarkup p) = [p]"
| "rich_paths (DirectoryDoesNotExist p) = [p]"
| "rich_paths (Listing ps) = ps"
| "rich_paths l = []"

definition rejects_bracket :: "line \<Rightarrow> bool" where
  "rejects_bracket l = ([''a['', ''b].txt''] \<in> set (rich_paths l))"

definition bracket_tree :: node where
  "bracket_tree = Dir 4096 [(''a['', Dir 4096 [(''b].txt'', File 1)]), (report_v2, File 2)]"

definition bracket_tree_after :: node where
  "bracket_tree_after = Dir 4096 [(''a['', Dir 4096 []), (report_v2, File 2)]"



section \<open>The pattern, characterised\<close>





lemma search_iff: "search p s \<longleftrightarrow> (\<exists>pre t. s = pre @ t \<and> match_here p t)"
proof (induction s)
  case Nil
  show ?case by simp
next
  case (Cons c s)
  note IH = Cons.IH
  show ?case
  proof
    assume "search p (c # s)"
    then consider "match_here p (c # s)" | "search p s" by auto
    then show "\<exists>pre t. c # s = pre @ t \<and> match_here p t"
    proof cases
      case 1
      then have "c # s = [] @ (c # s) \<and> match_here p (c # s)" by simp
      then show ?thesis by blast
    next
      case 2
      with IH obtain pre t where "s = pre @ t" "match_here p t" by blast
      then have "c # s = (c # pre) @ t \<and> match_here p t" by simp
      then show ?thesis by blast
    qed
  next
    assume "\<exists>pre t. c # s = pre @ t \<and> match_here p t"
    then obtain pre t where pt: "c # s = pre @ t" "match_here p t" by blast
    show "search p (c # s)"
    proof (cases pre)
      case Nil
      with pt have "t = c # s" by simp
      with pt(2) show ?thesis by simp
    next
      case (Cons x pre')
      with pt have "s = pre' @ t" by simp
      with pt(2) IH have "search p s" by blast
      then show ?thesis by simp
    qed
  qed
qed






section \<open>The walk, characterised\<close>

lemma listed_files_simps [simp]:
  "listed_files [] = []"
  "listed_files ((root, dirs, files) # items) = map (\<lambda>f. root @ [f]) files @ listed_files items"
  "listed_files (xs @ ys) = listed_files xs @ listed_files ys"
  by (simp_all add: listed_files_def)

lemma fst_scan_files:
  "fst (scan_files verbose root files (cl, out)) =
     cl @ filter conflict_path (map (\<lambda>f. root @ [f]) files)"
  by (induction files arbitrary: cl out) (auto simp: conflict_path_def Let_def)

lemma fst_scan_walk:
  "fst (scan_walk verbose dir k items (cl, out)) = cl @ filter conflict_path (listed_files items)"
proof (induction items arbitrary: k cl out)
  case Nil
  show ?case by simp
next
  case (Cons it items)
  obtain root dirs files where it: "it = (root, dirs, files)" by (cases it) auto
  obtain cl' out' where sf: "scan_files verbose root files (cl, out @ [Searching dir (Suc k)]) = (cl', out')"
    by (cases "scan_files verbose root files (cl, out @ [Searching dir (Suc k)])") auto
  have "cl' = cl @ filter conflict_path (map (\<lambda>f. root @ [f]) files)"
    using fst_scan_files [of verbose root files cl "out @ [Searching dir (Suc k)]"] sf by simp
  then show ?case
    using Cons.IH [of "Suc k" cl' out'] it sf by simp
qed

lemma fst_find_files:
  "fst (find_files fs dir verbose) = filter conflict_path (listed_files (os_walk fs dir))"
  using fst_scan_walk [of verbose dir 0 "os_walk fs dir" "[]" "[]"] by (simp add: find_files_def)

lemma filenames_subset: "c \<in> set (filenames es) \<Longrightarrow> c \<in> fst ` set es"
  by (induction es rule: filenames.induct) (auto split: if_splits)

lemma listed_below_absent: "c \<notin> fst ` set es \<Longrightarrow> listed_below es (c # cs) = None"
  by (induction es "c # cs" rule: listed_below.induct) auto

lemma listed_below_single:
  "wf_entries es \<Longrightarrow> lists_below es [c] \<longleftrightarrow> c \<in> set (filenames es)"
proof (induction es)
  case Nil
  show ?case by (simp add: lists_below_def)
next
  case (Cons e es)
  obtain name n where e: "e = (name, n)" by (cases e) auto
  show ?case
  proof (cases "name = c")
    case True
    with Cons.prems e have "c \<notin> fst ` set es" by simp
    then have "c \<notin> set (filenames es)" using filenames_subset by blast
    then show ?thesis using True e by (simp add: lists_below_def)
  next
    case False
    with Cons e show ?thesis by (simp add: lists_below_def)
  qed
qed

lemma distinct_filenames: "wf_entries es \<Longrightarrow> distinct (filenames es)"
  by (induction es rule: filenames.induct) (auto dest: filenames_subset)

lemma lists_below_present: "lists_below es (c # cs) \<Longrightarrow> c \<in> fst ` set es"
  by (cases "c \<in> fst ` set es") (simp_all add: lists_below_def listed_below_absent)

lemma listed_below_Nil [simp]: "listed_below es [] = None"
  by (cases es) simp_all

lemma lists_below_Nil [simp]: "\<not> lists_below es []"
  by (simp add: lists_below_def)

lemma lists_below_skip:
  "name \<noteq> c \<Longrightarrow> lists_below ((name, n) # es) (c # cs) \<longleftrightarrow> lists_below es (c # cs)"
  by (cases n; cases cs) (simp_all add: lists_below_def)

lemma lists_below_enter:
  "cs \<noteq> [] \<Longrightarrow> lists_below ((name, Dir sz es') # es) (name # cs) \<longleftrightarrow> lists_below es' cs"
  by (cases cs) (simp_all add: lists_below_def)

lemma lists_below_blocked:
  "cs \<noteq> [] \<Longrightarrow> \<forall>sz es'. n \<noteq> Dir sz es' \<Longrightarrow> \<not> lists_below ((name, n) # es) (name # cs)"
  by (cases n; cases cs) (simp_all add: lists_below_def)

lemma walk_lists_Dir [simp]: "walk_lists (Dir sz es) rel = lists_below es rel"
  by (simp add: walk_lists_def lists_below_def listed_entry_def)

lemma walk_lists_DirLink [simp]: "walk_lists (DirLink sz es) rel = lists_below es rel"
  by (simp add: walk_lists_def lists_below_def listed_entry_def)

lemma walk_lists_other [simp]:
  "\<not> walk_lists (Locked sz es) rel" "\<not> walk_lists (File sz) rel"
  "\<not> walk_lists (Special sz) rel" "\<not> walk_lists Dangling rel"
  by (simp_all add: walk_lists_def listed_entry_def)

lemma listed_top:
  assumes wf: "wf_entries es"
    and sub: "set (listed_files (walk_entries root es)) =
       {root @ c # cs |c cs. cs \<noteq> [] \<and> lists_below es (c # cs)}"
  shows "(\<lambda>f. root @ [f]) ` set (filenames es) \<union> set (listed_files (walk_entries root es)) =
       {root @ rel |rel. lists_below es rel}"
  (is "?A \<union> ?B = ?C")
proof (rule set_eqI)
  fix p
  show "p \<in> ?A \<union> ?B \<longleftrightarrow> p \<in> ?C"
  proof
    assume "p \<in> ?A \<union> ?B"
    then show "p \<in> ?C"
    proof
      assume "p \<in> ?A"
      then obtain c where c: "p = root @ [c]" "c \<in> set (filenames es)" by auto
      then have "lists_below es [c]" using listed_below_single [OF wf] by simp
      with c show ?thesis by blast
    next
      assume "p \<in> ?B"
      then show ?thesis unfolding sub by blast
    qed
  next
    assume "p \<in> ?C"
    then obtain rel where p: "p = root @ rel" "lists_below es rel" by auto
    then obtain c cs where rel: "rel = c # cs" by (cases rel) auto
    show "p \<in> ?A \<union> ?B"
    proof (cases cs)
      case Nil
      with p rel have "c \<in> set (filenames es)" using listed_below_single [OF wf] by simp
      with p rel Nil show ?thesis by simp
    next
      case (Cons d ds)
      with p rel have "p \<in> ?B" unfolding sub by blast
      then show ?thesis by simp
    qed
  qed
qed

lemma listed_walk:
  "wf_node n \<Longrightarrow> set (listed_files (walk_node root n)) = {root @ rel |rel. walk_lists n rel}"
  "wf_entries es \<Longrightarrow>
     set (listed_files (walk_entries root es)) =
       {root @ c # cs |c cs. cs \<noteq> [] \<and> lists_below es (c # cs)}"
proof (induction root n and root es rule: walk_node_walk_entries.induct)
  case (1 root sz es)
  then have wf: "wf_entries es" by simp
  show ?case using listed_top [OF wf "1.IH" [OF wf]] by simp
next
  case (2 root sz es)
  then have wf: "wf_entries es" by simp
  show ?case using listed_top [OF wf "2.IH" [OF wf]] by simp
next
  case (3 root sz es)
  show ?case by simp
next
  case (4 root sz)
  show ?case by simp
next
  case (5 root sz)
  show ?case by simp
next
  case (6 root)
  show ?case by simp
next
  case (7 root)
  show ?case by (simp add: lists_below_def)
next
  case (8 root name sz es' es)
  then have wf: "wf_entries es" and wf': "wf_node (Dir sz es')" and nm: "name \<notin> fst ` set es"
    by simp_all
  have nothere: "\<not> lists_below es (name # cs)" for cs
    using nm lists_below_present by blast
  have "set (listed_files (walk_entries root ((name, Dir sz es') # es))) =
      set (listed_files (walk_node (root @ [name]) (Dir sz es'))) \<union>
      set (listed_files (walk_entries root es))"
    by (simp del: walk_node.simps)
  also have "\<dots> = {(root @ [name]) @ rel |rel. lists_below es' rel} \<union>
      {root @ c # cs |c cs. cs \<noteq> [] \<and> lists_below es (c # cs)}"
    using "8.IH"(1) [OF wf'] "8.IH"(2) [OF wf] by simp
  also have "\<dots> = {root @ c # cs |c cs. cs \<noteq> [] \<and> lists_below ((name, Dir sz es') # es) (c # cs)}"
    (is "?A \<union> ?B = ?C")
  proof (rule set_eqI)
    fix p
    show "p \<in> ?A \<union> ?B \<longleftrightarrow> p \<in> ?C"
    proof
      assume "p \<in> ?A \<union> ?B"
      then show "p \<in> ?C"
      proof
        assume "p \<in> ?A"
        then obtain rel where r: "p = root @ name # rel" "lists_below es' rel" by auto
        then have "rel \<noteq> []" by auto
        with r have "lists_below ((name, Dir sz es') # es) (name # rel)"
          by (simp add: lists_below_enter)
        with r \<open>rel \<noteq> []\<close> show ?thesis by blast
      next
        assume "p \<in> ?B"
        then obtain c cs where p: "p = root @ c # cs" "cs \<noteq> []" "lists_below es (c # cs)" by auto
        then have "name \<noteq> c" using nothere by blast
        then have "lists_below ((name, Dir sz es') # es) (c # cs)"
          using p(3) by (simp add: lists_below_skip)
        with p show ?thesis by blast
      qed
    next
      assume "p \<in> ?C"
      then obtain c cs where p: "p = root @ c # cs" "cs \<noteq> []"
        "lists_below ((name, Dir sz es') # es) (c # cs)" by auto
      show "p \<in> ?A \<union> ?B"
      proof (cases "c = name")
        case True
        with p have "lists_below es' cs" by (simp add: lists_below_enter)
        with p True have "p \<in> ?A" by auto
        then show ?thesis by simp
      next
        case False
        then have "name \<noteq> c" by simp
        then have "lists_below es (c # cs)" using p(3) by (simp add: lists_below_skip)
        with p have "p \<in> ?B" by auto
        then show ?thesis by simp
      qed
    qed
  qed
  finally show ?case .
next
  case (9 root name sz es' es)
  then have wf: "wf_entries es" and nm: "name \<notin> fst ` set es" by simp_all
  have "lists_below ((name, Locked sz es') # es) (c # cs) \<longleftrightarrow> lists_below es (c # cs)"
    if "cs \<noteq> []" for c cs
  proof (cases "name = c")
    case True
    then have "\<not> lists_below es (c # cs)" using nm lists_below_present by blast
    moreover have "\<not> lists_below ((name, Locked sz es') # es) (c # cs)"
      using True that lists_below_blocked [of cs "Locked sz es'"] by simp
    ultimately show ?thesis by simp
  next
    case False
    then show ?thesis by (rule lists_below_skip)
  qed
  then show ?case using "9.IH"(2) [OF wf] by auto
next
  case (10 root name sz es' es)
  then have wf: "wf_entries es" and nm: "name \<notin> fst ` set es" by simp_all
  have "lists_below ((name, DirLink sz es') # es) (c # cs) \<longleftrightarrow> lists_below es (c # cs)"
    if "cs \<noteq> []" for c cs
  proof (cases "name = c")
    case True
    then have "\<not> lists_below es (c # cs)" using nm lists_below_present by blast
    moreover have "\<not> lists_below ((name, DirLink sz es') # es) (c # cs)"
      using True that lists_below_blocked [of cs "DirLink sz es'"] by simp
    ultimately show ?thesis by simp
  next
    case False
    then show ?thesis by (rule lists_below_skip)
  qed
  then show ?case using "10.IH" [OF wf] by auto
next
  case (11 root name sz es)
  then have wf: "wf_entries es" and nm: "name \<notin> fst ` set es" by simp_all
  have "lists_below ((name, File sz) # es) (c # cs) \<longleftrightarrow> lists_below es (c # cs)"
    if "cs \<noteq> []" for c cs
  proof (cases "name = c")
    case True
    then have "\<not> lists_below es (c # cs)" using nm lists_below_present by blast
    moreover have "\<not> lists_below ((name, File sz) # es) (c # cs)"
      using True that lists_below_blocked [of cs "File sz"] by simp
    ultimately show ?thesis by simp
  next
    case False
    then show ?thesis by (rule lists_below_skip)
  qed
  then show ?case using "11.IH" [OF wf] by auto
next
  case (12 root name sz es)
  then have wf: "wf_entries es" and nm: "name \<notin> fst ` set es" by simp_all
  have "lists_below ((name, Special sz) # es) (c # cs) \<longleftrightarrow> lists_below es (c # cs)"
    if "cs \<noteq> []" for c cs
  proof (cases "name = c")
    case True
    then have "\<not> lists_below es (c # cs)" using nm lists_below_present by blast
    moreover have "\<not> lists_below ((name, Special sz) # es) (c # cs)"
      using True that lists_below_blocked [of cs "Special sz"] by simp
    ultimately show ?thesis by simp
  next
    case False
    then show ?thesis by (rule lists_below_skip)
  qed
  then show ?case using "12.IH" [OF wf] by auto
next
  case (13 root name es)
  then have wf: "wf_entries es" and nm: "name \<notin> fst ` set es" by simp_all
  have "lists_below ((name, Dangling) # es) (c # cs) \<longleftrightarrow> lists_below es (c # cs)"
    if "cs \<noteq> []" for c cs
  proof (cases "name = c")
    case True
    then have "\<not> lists_below es (c # cs)" using nm lists_below_present by blast
    moreover have "\<not> lists_below ((name, Dangling) # es) (c # cs)"
      using True that lists_below_blocked [of cs Dangling] by simp
    ultimately show ?thesis by simp
  next
    case False
    then show ?thesis by (rule lists_below_skip)
  qed
  then show ?case using "13.IH" [OF wf] by auto
qed


lemma distinct_listed_walk:
  "wf_node n \<Longrightarrow> distinct (listed_files (walk_node root n))"
  "wf_entries es \<Longrightarrow> distinct (listed_files (walk_entries root es))"
proof (induction root n and root es rule: walk_node_walk_entries.induct)
  case (1 root sz es)
  then have wf: "wf_entries es" by simp
  have "distinct (map (\<lambda>f. root @ [f]) (filenames es))"
    using distinct_filenames [OF wf] by (simp add: distinct_map inj_on_def)
  moreover have "distinct (listed_files (walk_entries root es))"
    by (rule "1.IH" [OF wf])
  moreover have "set (map (\<lambda>f. root @ [f]) (filenames es)) \<inter> set (listed_files (walk_entries root es)) = {}"
    unfolding listed_walk(2) [OF wf] by auto
  ultimately show ?case by simp
next
  case (2 root sz es)
  then have wf: "wf_entries es" by simp
  have "distinct (map (\<lambda>f. root @ [f]) (filenames es))"
    using distinct_filenames [OF wf] by (simp add: distinct_map inj_on_def)
  moreover have "distinct (listed_files (walk_entries root es))"
    by (rule "2.IH" [OF wf])
  moreover have "set (map (\<lambda>f. root @ [f]) (filenames es)) \<inter> set (listed_files (walk_entries root es)) = {}"
    unfolding listed_walk(2) [OF wf] by auto
  ultimately show ?case by simp
next
  case (8 root name sz es' es)
  then have wf: "wf_entries es" and wf': "wf_node (Dir sz es')" and nm: "name \<notin> fst ` set es"
    by simp_all
  have disj: "set (listed_files (walk_node (root @ [name]) (Dir sz es'))) \<inter>
        set (listed_files (walk_entries root es)) = {}"
  proof (rule ccontr)
    assume "\<not> ?thesis"
    then obtain p where p: "p \<in> set (listed_files (walk_node (root @ [name]) (Dir sz es')))"
      "p \<in> set (listed_files (walk_entries root es))" by blast
    from p(1) obtain rel where r: "p = (root @ [name]) @ rel"
      unfolding listed_walk(1) [OF wf'] by blast
    from p(2) obtain c cs where c: "p = root @ c # cs" "lists_below es (c # cs)"
      unfolding listed_walk(2) [OF wf] by blast
    from r c(1) have "c = name" by simp
    with c(2) nm lists_below_present show False by blast
  qed
  have eq: "listed_files (walk_entries root ((name, Dir sz es') # es)) =
      listed_files (walk_node (root @ [name]) (Dir sz es')) @ listed_files (walk_entries root es)"
    by (simp del: walk_node.simps)
  show ?case
    unfolding eq distinct_append
    using "8.IH"(1) [OF wf'] "8.IH"(2) [OF wf] disj by blast
next
  case (9 root name sz es' es)
  then show ?case by simp
next
  case (10 root name sz es' es)
  then show ?case by simp
next
  case (11 root name sz es)
  then show ?case by simp
next
  case (12 root name sz es)
  then show ?case by simp
next
  case (13 root name es)
  then show ?case by simp
qed simp_all

lemma lookup_append:
  "lookup n (p @ q) = (case lookup n p of Inl e \<Rightarrow> Inl e | Inr n' \<Rightarrow> lookup n' q)"
  "lookup_in es c (cs @ q) = (case lookup_in es c cs of Inl e \<Rightarrow> Inl e | Inr n' \<Rightarrow> lookup n' q)"
  by (induction n p and es c cs rule: lookup_lookup_in.induct) simp_all

lemma wf_lookup:
  "wf_node n \<Longrightarrow> lookup n p = Inr n' \<Longrightarrow> wf_node n'"
  "wf_entries es \<Longrightarrow> lookup_in es c cs = Inr n' \<Longrightarrow> wf_node n'"
  by (induction n p and es c cs rule: lookup_lookup_in.induct) (auto split: if_splits)

lemma listed_below_lookup:
  "listed_below es (c # cs) = Some e \<Longrightarrow> lookup_in es c cs = Inr e"
  by (induction es "c # cs" arbitrary: c cs rule: listed_below.induct) (auto split: if_splits)

lemma listed_entry_lookup: "listed_entry n rel = Some e \<Longrightarrow> lookup n rel = Inr e"
proof (cases rel)
  case Nil
  assume "listed_entry n rel = Some e"
  with Nil show ?thesis
    by (cases n) (auto simp: listed_entry_def split: list.splits)
next
  case (Cons c cs)
  assume "listed_entry n rel = Some e"
  with Cons show ?thesis
    by (cases n) (auto simp: listed_entry_def dest: listed_below_lookup)
qed

lemma walk_lists_not_dir:
  assumes "lookup fs dir = Inr n" and "walk_lists n rel"
  shows "\<not> is_dir fs (dir @ rel)"
proof -
  from assms(2) obtain e where e: "listed_entry n rel = Some e" "\<not> is_directory e"
    by (auto simp: walk_lists_def split: option.splits)
  then have "lookup fs (dir @ rel) = Inr e"
    using assms(1) listed_entry_lookup by (simp add: lookup_append)
  with e show ?thesis by (simp add: is_dir_def)
qed

lemma walk_lists_nonempty: "walk_lists n rel \<Longrightarrow> rel \<noteq> []"
  by (cases n) (auto simp: walk_lists_def listed_entry_def)

lemma set_find_files:
  assumes "wf_node fs" and "lookup fs dir = Inr n"
  shows "set (fst (find_files fs dir verbose)) =
    {dir @ rel |rel. walk_lists n rel \<and> search conflict_re (last rel)}"
proof -
  have wf: "wf_node n" using assms wf_lookup(1) by blast
  have "set (fst (find_files fs dir verbose)) =
      {p \<in> set (listed_files (walk_node dir n)). conflict_path p}"
    using assms(2) by (simp add: fst_find_files os_walk_def)
  also have "\<dots> = {dir @ rel |rel. walk_lists n rel \<and> search conflict_re (last rel)}"
    unfolding listed_walk(1) [OF wf] using walk_lists_nonempty by (auto simp: conflict_path_def)
  finally show ?thesis .
qed

lemma distinct_find_files:
  assumes "wf_node fs"
  shows "distinct (fst (find_files fs dir verbose))"
proof (cases "lookup fs dir")
  case (Inl e)
  then show ?thesis by (simp add: fst_find_files os_walk_def)
next
  case (Inr n)
  then have "wf_node n" using assms wf_lookup(1) by blast
  then show ?thesis
    using Inr distinct_listed_walk(1) by (simp add: fst_find_files os_walk_def)
qed

section \<open>The console, accepting or not\<close>

lemma scan_files_rich_quiet:
  "scan_files_rich rejects False root files st = Inr (scan_files False root files st)"
proof (induction files arbitrary: st)
  case Nil
  show ?case by simp
next
  case (Cons f files)
  obtain cl out where "st = (cl, out)" by (cases st) auto
  then show ?case using Cons by (simp add: Let_def)
qed

lemma scan_files_rich_Inr:
  "scan_files_rich rejects verbose root files st = Inr st' \<Longrightarrow>
     st' = scan_files verbose root files st"
proof (induction files arbitrary: st)
  case Nil
  then show ?case by simp
next
  case (Cons f files)
  obtain cl out where st: "st = (cl, out)" by (cases st) auto
  show ?case
    using Cons.prems Cons.IH unfolding st
    by (auto simp: Let_def split: if_splits)
qed

lemma scan_walk_rich_quiet:
  "scan_walk_rich rejects False dir k items st = Inr (scan_walk False dir k items st)"
proof (induction items arbitrary: k st)
  case Nil
  show ?case by simp
next
  case (Cons it items)
  obtain root dirs files where it: "it = (root, dirs, files)" by (cases it) auto
  obtain cl out where st: "st = (cl, out)" by (cases st) auto
  show ?case unfolding it st using Cons by (simp add: scan_files_rich_quiet)
qed

lemma scan_walk_rich_Inr:
  "scan_walk_rich rejects verbose dir k items st = Inr st' \<Longrightarrow>
     st' = scan_walk verbose dir k items st"
proof (induction items arbitrary: k st)
  case Nil
  then show ?case by simp
next
  case (Cons it items)
  obtain root dirs files where it: "it = (root, dirs, files)" by (cases it) auto
  obtain cl out where st: "st = (cl, out)" by (cases st) auto
  from Cons.prems obtain st1 where
    a: "scan_files_rich rejects verbose root files (cl, out @ [Searching dir (Suc k)]) = Inr st1"
    and b: "scan_walk_rich rejects verbose dir (Suc k) items st1 = Inr st'"
    unfolding it st by (auto split: sum.splits)
  have "st1 = scan_files verbose root files (cl, out @ [Searching dir (Suc k)])"
    using a by (rule scan_files_rich_Inr)
  moreover have "st' = scan_walk verbose dir (Suc k) items st1"
    using b by (rule Cons.IH)
  ultimately show ?case unfolding it st by simp
qed

lemma find_files_rich_quiet:
  "find_files_rich rejects fs dir False = Inr (find_files fs dir False)"
  by (simp add: find_files_rich_def find_files_def scan_walk_rich_quiet)

lemma find_files_rich_Inr:
  "find_files_rich rejects fs dir verbose = Inr r \<Longrightarrow> r = find_files fs dir verbose"
  unfolding find_files_rich_def find_files_def by (rule scan_walk_rich_Inr)

lemma find_files_rich_accepting:
  assumes "\<And>l. \<not> rejects l"
  shows "find_files_rich rejects fs dir verbose = Inr (find_files fs dir verbose)"
proof -
  have sf: "scan_files_rich rejects verbose root files st = Inr (scan_files verbose root files st)"
    for root files st
  proof (induction files arbitrary: st)
    case Nil
    show ?case by simp
  next
    case (Cons f files)
    obtain cl out where "st = (cl, out)" by (cases st) auto
    then show ?case using Cons assms by (cases verbose) (simp_all add: Let_def)
  qed
  have "scan_walk_rich rejects verbose dir k items st = Inr (scan_walk verbose dir k items st)"
    for k items st
  proof (induction items arbitrary: k st)
    case Nil
    show ?case by simp
  next
    case (Cons it items)
    obtain root dirs files where it: "it = (root, dirs, files)" by (cases it) auto
    obtain cl out where st: "st = (cl, out)" by (cases st) auto
    show ?case unfolding it st using Cons by (simp add: sf)
  qed
  then show ?thesis by (simp add: find_files_rich_def find_files_def)
qed

lemma verbose_same_when_returns:
  assumes "find_files_rich rejects fs dir True = Inr (conflict_list, out)"
    and "find_files_rich rejects' fs dir False = Inr (conflict_list', out')"
  shows "conflict_list = conflict_list'"
proof -
  have "find_files fs dir True = (conflict_list, out)"
    using find_files_rich_Inr [OF assms(1)] by simp
  moreover have "find_files fs dir False = (conflict_list', out')"
    using find_files_rich_Inr [OF assms(2)] by simp
  moreover have "fst (find_files fs dir True) = fst (find_files fs dir False)"
    by (simp add: fst_find_files)
  ultimately show ?thesis by simp
qed

section \<open>The scanner\<close>

lemma search_report_v2: "search conflict_re report_v2"
  by (simp add: report_v2_def conflict_re_def lits_def eval_nat_numeral is_digit_def)

lemma search_notes: "search conflict_re ''notes # Edit conflict 2023-11-02 laptop #.md''"
  by (simp add: conflict_re_def lits_def eval_nat_numeral is_digit_def)

lemma search_report_final: "\<not> search conflict_re ''report_final.docx''"
  by (simp add: conflict_re_def lits_def eval_nat_numeral is_digit_def)

lemma search_gone: "search conflict_re ''gone # Edit conflict 2024-01-15 x #''"
  by (simp add: conflict_re_def lits_def eval_nat_numeral is_digit_def)

lemma search_b_txt: "\<not> search conflict_re ''b].txt''"
  by (simp add: conflict_re_def lits_def eval_nat_numeral is_digit_def)

lemma example_tree_wf: "wf_node example_tree"
  by (simp add: example_tree_def report_v2_def)

lemma example_tree_verbose:
  "find_files_rich (\<lambda>l. False) example_tree [] True =
     Inr ([[report_v2],
           [''sub'', ''notes # Edit conflict 2023-11-02 laptop #.md''],
           [''sub'', ''deep'', report_v2]],
          [Searching [] 1,
           SkippingFile [''report_final.docx''],
           FoundConflictFile [report_v2],
           Searching [] 2,
           FoundConflictFile [''sub'', ''notes # Edit conflict 2023-11-02 laptop #.md''],
           Searching [] 3,
           FoundConflictFile [''sub'', ''deep'', report_v2]])"
  by (simp add: search_report_v2 search_notes search_report_final find_files_rich_def Let_def os_walk_def
      example_tree_def del: search.simps)




text \<open>
  C6, as amended. In a tree whose directories list each name once, with \<^verbatim>\<open>verbose\<close> off
  the scanner always returns; whenever it returns, its result holds exactly the full paths
  of the entries with a matching name that the walk lists as files: the entries that are
  not directories, regular files or not, of the scanned directory and of the directories
  below it at any depth that are reached through directories that can be listed, no
  symbolic link being followed. No path occurs twice, and none is a directory.
\<close>

theorem find_files_exact:
  assumes "wf_node fs" and "lookup fs dir = Inr n"
  shows "(\<exists>conflict_list out. find_files_rich rejects fs dir False = Inr (conflict_list, out)) \<and>
         (find_files_rich rejects fs dir verbose = Inr (conflict_list, out) \<longrightarrow>
            set conflict_list =
              {dir @ rel |rel. walk_lists n rel \<and> search conflict_re (last rel)} \<and>
            distinct conflict_list \<and>
            (\<forall>p \<in> set conflict_list. \<not> is_dir fs p))"
proof
  show "\<exists>conflict_list out. find_files_rich rejects fs dir False = Inr (conflict_list, out)"
    by (cases "find_files fs dir False") (simp add: find_files_rich_quiet)
  show "find_files_rich rejects fs dir verbose = Inr (conflict_list, out) \<longrightarrow>
            set conflict_list =
              {dir @ rel |rel. walk_lists n rel \<and> search conflict_re (last rel)} \<and>
            distinct conflict_list \<and>
            (\<forall>p \<in> set conflict_list. \<not> is_dir fs p)"
  proof
    assume "find_files_rich rejects fs dir verbose = Inr (conflict_list, out)"
    then have cl: "conflict_list = fst (find_files fs dir verbose)"
      using find_files_rich_Inr by fastforce
    have s: "set conflict_list = {dir @ rel |rel. walk_lists n rel \<and> search conflict_re (last rel)}"
      unfolding cl by (rule set_find_files [OF assms])
    have "\<not> is_dir fs p" if "p \<in> set conflict_list" for p
      using that walk_lists_not_dir [OF assms(2)] unfolding s by blast
    then show "set conflict_list =
              {dir @ rel |rel. walk_lists n rel \<and> search conflict_re (last rel)} \<and>
            distinct conflict_list \<and>
            (\<forall>p \<in> set conflict_list. \<not> is_dir fs p)"
      using s distinct_find_files [OF assms(1)] cl by blast
  qed
qed

theorem find_files_exact_witness:
  "wf_node example_tree \<and> lookup example_tree [] = Inr example_tree \<and>
   find_files_rich (\<lambda>l. False) example_tree [] True =
     Inr ([[report_v2],
           [''sub'', ''notes # Edit conflict 2023-11-02 laptop #.md''],
           [''sub'', ''deep'', report_v2]],
          [Searching [] 1,
           SkippingFile [''report_final.docx''],
           FoundConflictFile [report_v2],
           Searching [] 2,
           FoundConflictFile [''sub'', ''notes # Edit conflict 2023-11-02 laptop #.md''],
           Searching [] 3,
           FoundConflictFile [''sub'', ''deep'', report_v2]]) \<and>
   {[report_v2],
    [''sub'', ''notes # Edit conflict 2023-11-02 laptop #.md''],
    [''sub'', ''deep'', report_v2]} =
     {[] @ rel |rel. walk_lists example_tree rel \<and> search conflict_re (last rel)} \<and>
   \<not> is_dir example_tree [''sub'', ''deep'', report_v2]"
proof -
  let ?cl = "[[report_v2],
           [''sub'', ''notes # Edit conflict 2023-11-02 laptop #.md''],
           [''sub'', ''deep'', report_v2]]"
  let ?out = "[Searching [] 1,
           SkippingFile [''report_final.docx''],
           FoundConflictFile [report_v2],
           Searching [] 2,
           FoundConflictFile [''sub'', ''notes # Edit conflict 2023-11-02 laptop #.md''],
           Searching [] 3,
           FoundConflictFile [''sub'', ''deep'', report_v2]]"
  have l: "lookup example_tree [] = Inr example_tree" by simp
  note t = find_files_exact [OF example_tree_wf l, of "\<lambda>l. False" True ?cl ?out]
  have a: "set ?cl = {[] @ rel |rel. walk_lists example_tree rel \<and> search conflict_re (last rel)}"
    using t example_tree_verbose by blast
  have "\<forall>p \<in> set ?cl. \<not> is_dir example_tree p"
    using t example_tree_verbose by blast
  then have b: "\<not> is_dir example_tree [''sub'', ''deep'', report_v2]" by simp
  have c: "set ?cl = {[report_v2],
    [''sub'', ''notes # Edit conflict 2023-11-02 laptop #.md''],
    [''sub'', ''deep'', report_v2]}" by simp
  show ?thesis
    using example_tree_wf l example_tree_verbose a b unfolding c by blast
qed

text \<open>
  Not every matching regular file below the scanned directory is returned, and not every
  path returned is a regular file: the conflict file in a directory that cannot be listed
  is left out, and a dangling symbolic link with a conflict name is returned.
\<close>

theorem unlisted_and_irregular_counterexample:
  "search conflict_re report_v2 \<and>
   is_file locked_tree [''locked'', report_v2] \<and>
   \<not> is_file locked_tree [''gone # Edit conflict 2024-01-15 x #''] \<and>
   find_files locked_tree [] False =
     ([[''gone # Edit conflict 2024-01-15 x #'']], [Searching [] 1])"
proof -
  have k1: "is_file locked_tree [''locked'', report_v2]"
    by (simp add: is_file_def locked_tree_def report_v2_def)
  have k2: "\<not> is_file locked_tree [''gone # Edit conflict 2024-01-15 x #'']"
    by (simp add: is_file_def locked_tree_def report_v2_def)
  have k3: "find_files locked_tree [] False =
     ([[''gone # Edit conflict 2024-01-15 x #'']], [Searching [] 1])"
    by (simp add: search_gone find_files_def os_walk_def locked_tree_def del: search.simps)
  show ?thesis using search_report_v2 k1 k2 k3 by blast
qed

text \<open>
  C7 fails on the code. In a directory \<^verbatim>\<open>a[\<close> that holds \<^verbatim>\<open>b].txt\<close>, beside a conflict
  file: with \<^verbatim>\<open>verbose\<close> off the scanner returns the conflict file; with \<^verbatim>\<open>verbose\<close> on
  the line for \<^verbatim>\<open>a[/b].txt\<close> raises \<^verbatim>\<open>MarkupError\<close> and the scanner returns nothing.
\<close>

theorem verbose_markup_error:
  "find_files_rich rejects_bracket bracket_tree [] False =
     Inr ([[report_v2]], [Searching [] 1, Searching [] 2]) \<and>
   find_files_rich rejects_bracket bracket_tree [] True = Inl MarkupError"
  by (simp add: search_report_v2 search_b_txt find_files_rich_def Let_def os_walk_def bracket_tree_def
      rejects_bracket_def del: search.simps)

text \<open>
  C8. The date is checked for its shape only: any name containing
  \<^verbatim>\<open># Edit conflict 9999-99-99 x #\<close> matches, and the scanner returns such a file.
\<close>

theorem date_is_syntactic_only:
  "search conflict_re (pre @ ''# Edit conflict 9999-99-99 x #'' @ post) \<and>
   fst (find_files (Dir 0 [(''# Edit conflict 9999-99-99 x #'', File 0)]) [] verbose) =
     [[''# Edit conflict 9999-99-99 x #'']]"
proof
  have "match_here conflict_re (''# Edit conflict 9999-99-99 x #'' @ post)"
    by (simp add: conflict_re_def lits_def eval_nat_numeral is_digit_def)
  then show "search conflict_re (pre @ ''# Edit conflict 9999-99-99 x #'' @ post)"
    unfolding search_iff by blast
  have "search conflict_re ''# Edit conflict 9999-99-99 x #''"
    by (simp add: conflict_re_def lits_def eval_nat_numeral is_digit_def)
  then show "fst (find_files (Dir 0 [(''# Edit conflict 9999-99-99 x #'', File 0)]) [] verbose) =
     [[''# Edit conflict 9999-99-99 x #'']]"
    by (simp add: fst_find_files os_walk_def conflict_path_def)
qed

text \<open>
  C9. The pattern wants a space after the date and another one before the closing
  \<^verbatim>\<open>#\<close>: with a single space between them the name does not match, with two it does,
  and of two such files the scanner returns the second only.
\<close>

theorem single_space_not_matched:
  "\<not> search conflict_re ''doc # Edit conflict 2024-01-15 #.txt'' \<and>
   search conflict_re ''doc # Edit conflict 2024-01-15  #.txt'' \<and>
   fst (find_files
          (Dir 0 [(''doc # Edit conflict 2024-01-15 #.txt'', File 0),
                  (''doc # Edit conflict 2024-01-15  #.txt'', File 0)]) [] verbose) =
     [[''doc # Edit conflict 2024-01-15  #.txt'']]"
proof -
  have a: "\<not> search conflict_re ''doc # Edit conflict 2024-01-15 #.txt''"
    by (simp add: conflict_re_def lits_def eval_nat_numeral is_digit_def)
  have b: "search conflict_re ''doc # Edit conflict 2024-01-15  #.txt''"
    by (simp add: conflict_re_def lits_def eval_nat_numeral is_digit_def)
  show ?thesis
    using a b by (simp add: fst_find_files os_walk_def conflict_path_def)
qed

section \<open>The remover\<close>

lemma removal_attempts_simps [simp]:
  "removal_attempts [] = []"
  "removal_attempts (l # out) = removal_of l @ removal_attempts out"
  "removal_attempts (out @ out') = removal_attempts out @ removal_attempts out'"
  by (simp_all add: removal_attempts_def)


lemma remove_files_append:
  "remove_files (xs @ ys) st = remove_files ys (remove_files xs st)"
proof (induction xs arbitrary: st)
  case Nil
  show ?case by simp
next
  case (Cons x xs)
  obtain fs out where "st = (fs, out)" by (cases st) auto
  then show ?case using Cons by (simp split: sum.splits)
qed


lemma remove_files_rich_accepting:
  assumes "\<And>l. \<not> rejects l"
  shows "remove_files_rich rejects files (fs, out) = (None, remove_files files (fs, out))"
  using assms by (induction files arbitrary: fs out) (auto split: sum.splits)

text \<open>
  C3 fails on the code. The list is \<^verbatim>\<open>a[/b].txt\<close>, then the conflict file. When the first
  file is there, it is removed, the line that reports it raises \<^verbatim>\<open>MarkupError\<close> inside
  the \<^verbatim>\<open>try\<close>, and the line of the handler raises it again: the exception leaves
  \<^verbatim>\<open>remove_files\<close> with nothing written, and the second path is not attempted. When the
  first file is missing, \<^verbatim>\<open>os.remove\<close> fails, the error is caught, and the line of the
  handler raises \<^verbatim>\<open>MarkupError\<close>, with the same end.
\<close>

theorem remove_files_markup_error:
  "remove_files_rich rejects_bracket [[''a['', ''b].txt''], [report_v2]] (bracket_tree, []) =
     (Some MarkupError, bracket_tree_after, []) \<and>
   os_remove bracket_tree_after [''a['', ''b].txt''] = Inl FileNotFoundError \<and>
   remove_files_rich rejects_bracket [[''a['', ''b].txt''], [report_v2]] (bracket_tree_after, []) =
     (Some MarkupError, bracket_tree_after, []) \<and>
   is_file bracket_tree_after [report_v2]"
  by (simp add: bracket_tree_def bracket_tree_after_def rejects_bracket_def os_remove_def
      is_file_def report_v2_def)

section \<open>The entry point: start-up\<close>









section \<open>The size summary and the confirmation\<close>































end
